theory Spec2Isabelle
  imports Main "HOL-Library.Sublist"
begin

section \<open>RDF terms, statements and graphs\<close>

text \<open>
  The mergers work on rdflib graphs. A term is a URI reference, a blank node or a literal;
  two terms are equal when they are of the same kind and carry the same text (a literal
  also the same language tag and datatype). A statement is a triple of terms.

  A graph is a set of statements that the store enumerates in some order. It is modelled
  as the list of its statements without repetition, in the order of enumeration;
  \<open>graph_add\<close> is \<open>Graph.add\<close>, which leaves a graph that already holds the statement
  as it is.
\<close>

datatype rdf_term =
    URIRef string
  | BNode string
  | Literal string "string option" "string option"

type_synonym triple = "rdf_term \<times> rdf_term \<times> rdf_term"
type_synonym graph = "triple list"

fun is_URIRef :: "rdf_term \<Rightarrow> bool" where
  "is_URIRef (URIRef u) = True"
| "is_URIRef _ = False"


definition RDF_type :: rdf_term where
  "RDF_type = URIRef ''http://www.w3.org/1999/02/22-rdf-syntax-ns#type''"

definition RDFS_label :: rdf_term where
  "RDFS_label = URIRef ''http://www.w3.org/2000/01/rdf-schema#label''"

definition RDFS_comment :: rdf_term where
  "RDFS_comment = URIRef ''http://www.w3.org/2000/01/rdf-schema#comment''"

definition RDFS_subClassOf :: rdf_term where
  "RDFS_subClassOf = URIRef ''http://www.w3.org/2000/01/rdf-schema#subClassOf''"

definition OWL_Class :: rdf_term where
  "OWL_Class = URIRef ''http://www.w3.org/2002/07/owl#Class''"

definition OWL_ObjectProperty :: rdf_term where
  "OWL_ObjectProperty = URIRef ''http://www.w3.org/2002/07/owl#ObjectProperty''"

definition OWL_DatatypeProperty :: rdf_term where
  "OWL_DatatypeProperty = URIRef ''http://www.w3.org/2002/07/owl#DatatypeProperty''"

definition OWL_inverseOf :: rdf_term where
  "OWL_inverseOf = URIRef ''http://www.w3.org/2002/07/owl#inverseOf''"

definition OWL_Ontology :: rdf_term where
  "OWL_Ontology = URIRef ''http://www.w3.org/2002/07/owl#Ontology''"

definition graph_add :: "triple \<Rightarrow> graph \<Rightarrow> graph" where
  "graph_add t g = (if t \<in> set g then g else g @ [t])"

definition graph_remove :: "triple \<Rightarrow> graph \<Rightarrow> graph" where
  "graph_remove t g = filter (\<lambda>t'. t' \<noteq> t) g"

text \<open>\<open>graph.triples((s, None, None))\<close> and \<open>graph.triples((s, p, None))\<close>.\<close>

definition triples_s :: "graph \<Rightarrow> rdf_term \<Rightarrow> triple list" where
  "triples_s g s = filter (\<lambda>(s', p', o'). s' = s) g"

definition triples_sp :: "graph \<Rightarrow> rdf_term \<Rightarrow> rdf_term \<Rightarrow> triple list" where
  "triples_sp g s p = filter (\<lambda>(s', p', o'). s' = s \<and> p' = p) g"

text \<open>\<open>graph.triples((None, None, o))\<close>.\<close>

definition triples_o :: "graph \<Rightarrow> rdf_term \<Rightarrow> triple list" where
  "triples_o g ob = filter (\<lambda>(s', p', o'). o' = ob) g"

text \<open>\<open>graph.subjects(p, o)\<close> and \<open>graph.subjects(p, None)\<close>.\<close>

definition subjects_po :: "graph \<Rightarrow> rdf_term \<Rightarrow> rdf_term \<Rightarrow> rdf_term list" where
  "subjects_po g p ob = map fst (filter (\<lambda>(s', p', o'). p' = p \<and> o' = ob) g)"


section \<open>Python containers\<close>

text \<open>
  A \<open>dict\<close> is an association list with distinct keys in insertion order: \<open>dict_set\<close>
  is \<open>d[k] = v\<close> (an existing key keeps its place), \<open>dict_get\<close> the lookup,
  \<open>dict_append\<close> the idiom \<open>if k not in d: d[k] = []\<close> followed by
  \<open>d[k].append(v)\<close>.

  A \<open>set\<close> built from a sequence is modelled by \<open>set_list\<close>, the sequence without
  its repeated elements. Python enumerates a set in the order of its hash table, which
  the model does not derive: \<open>set_list\<close> keeps the order of first occurrence, and the
  theorems about groups below are stated for every list of members.
\<close>

fun dict_set :: "'k \<Rightarrow> 'v \<Rightarrow> ('k \<times> 'v) list \<Rightarrow> ('k \<times> 'v) list" where
  "dict_set k v [] = [(k, v)]"
| "dict_set k v ((k', v') # d) = (if k' = k then (k', v) # d else (k', v') # dict_set k v d)"

fun dict_get :: "('k \<times> 'v) list \<Rightarrow> 'k \<Rightarrow> 'v option" where
  "dict_get [] k = None"
| "dict_get ((k', v') # d) k = (if k' = k then Some v' else dict_get d k)"

fun dict_append :: "'k \<Rightarrow> 'v \<Rightarrow> ('k \<times> 'v list) list \<Rightarrow> ('k \<times> 'v list) list" where
  "dict_append k v [] = [(k, [v])]"
| "dict_append k v ((k', vs) # d) =
     (if k' = k then (k', vs @ [v]) # d else (k', vs) # dict_append k v d)"

fun set_list :: "'a list \<Rightarrow> 'a list" where
  "set_list [] = []"
| "set_list (x # xs) = x # filter (\<lambda>y. y \<noteq> x) (set_list xs)"

section \<open>Python strings\<close>

text \<open>
  Names are taken to be ASCII text. \<open>lower\<close> is \<open>str.lower\<close>, \<open>strip\<close> is
  \<open>str.strip\<close> (the ASCII white space of Python: tab, line feed, vertical tab, form
  feed, carriage return, the four separators 28 to 31, and space), \<open>sublist x s\<close> is
  \<open>x in s\<close>, and \<open>replace\<close> is \<open>s.replace(old, new)\<close>, which rewrites the
  occurrences of \<open>old\<close> from the left without overlap.
\<close>

definition lower_char :: "char \<Rightarrow> char" where
  "lower_char c =
     (let n = (of_char c :: nat) in if 65 \<le> n \<and> n \<le> 90 then char_of (n + 32) else c)"

definition lower :: "string \<Rightarrow> string" where
  "lower s = map lower_char s"

definition is_space :: "char \<Rightarrow> bool" where
  "is_space c = (let n = (of_char c :: nat) in (9 \<le> n \<and> n \<le> 13) \<or> (28 \<le> n \<and> n \<le> 32))"

definition strip :: "string \<Rightarrow> string" where
  "strip s = rev (dropWhile is_space (rev (dropWhile is_space s)))"

function replace :: "string \<Rightarrow> string \<Rightarrow> string \<Rightarrow> string" where
  "replace old new [] = (if old = [] then new else [])"
| "replace old new (c # cs) =
     (if old = [] then new @ c # replace old new cs
      else if prefix old (c # cs) then new @ replace old new (drop (length old) (c # cs))
      else c # replace old new cs)"
  by pat_completeness auto
termination
  by (relation "measure (\<lambda>(old, new, s). length s)") auto

text \<open>\<open>str(uri).split('#')[-1]\<close>: what follows the last \<open>#\<close>, the whole text when
  there is none.\<close>

definition split_last_hash :: "string \<Rightarrow> string" where
  "split_last_hash s = rev (takeWhile (\<lambda>c. c \<noteq> CHR ''#'') (rev s))"

text \<open>\<open>s.rstrip("#")\<close>.\<close>

definition rstrip_hash :: "string \<Rightarrow> string" where
  "rstrip_hash s = rev (dropWhile (\<lambda>c. c = CHR ''#'') (rev s))"

section \<open>The strategic merger: names and labels\<close>

text \<open>
  \<open>normalize_name\<close> lowers the name and applies two substitutions.
  \<open>re.sub(r'^(has|is|of|to|for|with|by)_?', '', name)\<close> removes, at the start only, the
  first alternative that matches there and an underscore after it.
  \<open>re.sub(r'_?(state|type|system|method|property)$', '', name)\<close> removes the leftmost
  match that ends where \<open>$\<close> holds, which is the end of the text or the place before a
  line feed that ends it: the suffix word and an underscore in front of it.
\<close>

definition stop_prefixes :: "string list" where
  "stop_prefixes = [''has'', ''is'', ''of'', ''to'', ''for'', ''with'', ''by'']"

definition stop_suffixes :: "string list" where
  "stop_suffixes = [''state'', ''type'', ''system'', ''method'', ''property'']"

fun drop_first_prefix :: "string list \<Rightarrow> string \<Rightarrow> string option" where
  "drop_first_prefix [] s = None"
| "drop_first_prefix (t # ts) s =
     (if prefix t s then Some (drop (length t) s) else drop_first_prefix ts s)"

definition sub_stop_prefix :: "string \<Rightarrow> string" where
  "sub_stop_prefix s =
     (case drop_first_prefix stop_prefixes s of
        None \<Rightarrow> s
      | Some r \<Rightarrow> (case r of c # r' \<Rightarrow> if c = CHR ''_'' then r' else r | [] \<Rightarrow> r))"

fun drop_first_suffix :: "string list \<Rightarrow> string \<Rightarrow> string option" where
  "drop_first_suffix [] s = None"
| "drop_first_suffix (t # ts) s =
     (if suffix t s then Some (take (length s - length t) s) else drop_first_suffix ts s)"

definition sub_stop_suffix :: "string \<Rightarrow> string" where
  "sub_stop_suffix s =
     (let (body, tail) =
            (if s \<noteq> [] \<and> last s = CHR 0x0A then (butlast s, [CHR 0x0A]) else (s, []))
      in case drop_first_suffix stop_suffixes body of
           None \<Rightarrow> s
         | Some r \<Rightarrow> (if r \<noteq> [] \<and> last r = CHR ''_'' then butlast r else r) @ tail)"

definition normalize_name :: "string \<Rightarrow> string" where
  "normalize_name name =
     (if name = [] then [] else strip (sub_stop_suffix (sub_stop_prefix (lower name))))"

text \<open>\<open>get_label\<close> returns the text of the first literal among the labels of the node,
  \<open>None\<close> when there is none.\<close>

fun first_literal :: "triple list \<Rightarrow> string option" where
  "first_literal [] = None"
| "first_literal ((s, p, Literal l lg dt) # ts) = Some l"
| "first_literal (t # ts) = first_literal ts"

definition get_label :: "graph \<Rightarrow> rdf_term \<Rightarrow> string option" where
  "get_label graph uri = first_literal (triples_sp graph uri RDFS_label)"

definition get_comment :: "graph \<Rightarrow> rdf_term \<Rightarrow> string option" where
  "get_comment graph uri = first_literal (triples_sp graph uri RDFS_comment)"

text \<open>\<open>label or str(uri).split('#')[-1]\<close>: an empty label counts as absent.\<close>

definition display_name :: "string option \<Rightarrow> string \<Rightarrow> string" where
  "display_name label u =
     (case label of
        None \<Rightarrow> split_last_hash u
      | Some l \<Rightarrow> if l = [] then split_last_hash u else l)"

section \<open>The strategic merger: state\<close>

text \<open>
  The fields of \<open>StrategicOntologyMerger\<close> that the merge reads or writes. The
  constructor binds the name spaces, puts the ontology declaration into the merged graph
  and starts with empty tables.
\<close>

record merger =
  base_uri :: string
  ontology_uri :: rdf_term
  merged_graph :: graph
  class_mappings :: "(rdf_term \<times> rdf_term) list"
  property_mappings :: "(rdf_term \<times> rdf_term) list"
  inverse_properties :: "(rdf_term \<times> rdf_term) list"

definition init :: "string \<Rightarrow> merger" where
  "init base =
     \<lparr> base_uri = base,
       ontology_uri = URIRef (rstrip_hash base),
       merged_graph = graph_add (URIRef (rstrip_hash base), RDF_type, OWL_Ontology) [],
       class_mappings = [],
       property_mappings = [],
       inverse_properties = [] \<rparr>"

section \<open>The strategic merger: similar classes and properties\<close>

text \<open>
  \<open>all_classes\<close> maps a normalized name to the entries \<open>(class_uri, i, label)\<close>
  collected for it, \<open>all_properties\<close> to the entries
  \<open>(prop_uri, i, label, prop_name)\<close>; \<open>i\<close> is the index of the source graph.
\<close>

type_synonym class_entry = "rdf_term \<times> nat \<times> string option"
type_synonym prop_entry = "rdf_term \<times> nat \<times> string option \<times> string"
type_synonym groups = "(string \<times> rdf_term list) list"

definition collect_class ::
  "graph \<Rightarrow> nat \<Rightarrow> rdf_term \<Rightarrow> (string \<times> class_entry list) list
     \<Rightarrow> (string \<times> class_entry list) list" where
  "collect_class graph i class_uri all_classes =
     (case class_uri of
        URIRef u \<Rightarrow>
          (let label = get_label graph class_uri;
               normalized = normalize_name (display_name label u)
           in dict_append normalized (class_uri, i, label) all_classes)
      | _ \<Rightarrow> all_classes)"

definition collect_classes :: "graph list \<Rightarrow> (string \<times> class_entry list) list" where
  "collect_classes ontologies =
     fold (\<lambda>(i, graph) all_classes.
             fold (collect_class graph i) (subjects_po graph RDF_type OWL_Class) all_classes)
          (enumerate 0 ontologies) []"

definition find_similar_classes :: "graph list \<Rightarrow> groups" where
  "find_similar_classes ontologies =
     map (\<lambda>(normalized, classes). (normalized, set_list (map fst classes)))
         (filter (\<lambda>(normalized, classes). length classes > 1) (collect_classes ontologies))"

definition collect_property ::
  "graph \<Rightarrow> nat \<Rightarrow> rdf_term \<Rightarrow> (string \<times> prop_entry list) list
     \<Rightarrow> (string \<times> prop_entry list) list" where
  "collect_property graph i prop_uri all_properties =
     (case prop_uri of
        URIRef u \<Rightarrow>
          (let label = get_label graph prop_uri;
               prop_name = display_name label u;
               normalized = normalize_name prop_name
           in dict_append normalized (prop_uri, i, label, prop_name) all_properties)
      | _ \<Rightarrow> all_properties)"

definition collect_properties :: "graph list \<Rightarrow> (string \<times> prop_entry list) list" where
  "collect_properties ontologies =
     fold (\<lambda>(i, graph) all_properties.
             fold (collect_property graph i)
                  (set_list (subjects_po graph RDF_type OWL_ObjectProperty
                               @ subjects_po graph RDF_type OWL_DatatypeProperty))
                  all_properties)
          (enumerate 0 ontologies) []"

definition inverse_patterns :: "(string \<times> string) list" where
  "inverse_patterns =
     [(''has'', ''isOf''),
      (''detects'', ''detectedBy''),
      (''observes'', ''observedBy''),
      (''activates'', ''activatedBy''),
      (''responds'', ''respondsTo''),
      (''signals'', ''signaledBy''),
      (''indicates'', ''indicatedBy''),
      (''classifies'', ''classifiedBy''),
      (''analyzes'', ''analyzedBy'')]"

text \<open>The two inner loops of \<open>find_inverse_candidates\<close>: every collected property whose
  lowered full name contains the searched name.\<close>

definition props_containing ::
  "string \<Rightarrow> (string \<times> prop_entry list) list \<Rightarrow> prop_entry list" where
  "props_containing searched all_properties =
     filter (\<lambda>(prop_uri, i, label, full_name). sublist searched (lower full_name))
            (concat (map snd all_properties))"

definition find_inverse_candidates ::
  "string \<Rightarrow> (string \<times> prop_entry list) list \<Rightarrow> prop_entry list" where
  "find_inverse_candidates prop_name all_properties =
     (let prop_lower = lower prop_name
      in concat (map (\<lambda>(forward, backward).
                        if sublist forward prop_lower
                        then props_containing (replace forward backward prop_lower) all_properties
                        else if sublist backward prop_lower
                        then props_containing (replace backward forward prop_lower) all_properties
                        else [])
                     inverse_patterns))"

text \<open>The loop of \<open>find_similar_properties\<close> that fills \<open>self.inverse_properties\<close>:
  every candidate of every collected property overwrites the entry of that property.\<close>

definition record_inverses ::
  "(string \<times> prop_entry list) list \<Rightarrow> (rdf_term \<times> rdf_term) list
     \<Rightarrow> (rdf_term \<times> rdf_term) list" where
  "record_inverses all_properties table =
     fold (\<lambda>(prop_uri, i, label, prop_name) table'.
             fold (\<lambda>(inv_prop, j, l, n) table''. dict_set prop_uri inv_prop table'')
                  (find_inverse_candidates prop_name all_properties) table')
          (concat (map snd all_properties)) table"

definition find_similar_properties :: "merger \<Rightarrow> graph list \<Rightarrow> merger \<times> groups" where
  "find_similar_properties st ontologies =
     (let all_properties = collect_properties ontologies
      in (st\<lparr>inverse_properties := record_inverses all_properties (inverse_properties st)\<rparr>,
          map (\<lambda>(normalized, properties). (normalized, set_list (map fst properties)))
              (filter (\<lambda>(normalized, properties). length properties > 1) all_properties)))"

section \<open>The strategic merger: canonical entities and the mapping\<close>

text \<open>
  \<open>choose_canonical_entity\<close> scores every entity of the list over all source graphs and
  returns the key of the first entry of the score table with the highest score
  (\<open>max\<close> keeps the first of equal items). On an empty list \<open>max\<close> raises
  \<open>ValueError\<close>, which is the value \<open>None\<close>.
\<close>

definition graph_score :: "graph \<Rightarrow> rdf_term \<Rightarrow> nat" where
  "graph_score graph entity =
     length (triples_s graph entity)
       + (if triples_sp graph entity RDFS_label \<noteq> [] then 2 else 0)
       + (if triples_sp graph entity RDFS_comment \<noteq> [] then 2 else 0)"

definition entity_score :: "graph list \<Rightarrow> rdf_term \<Rightarrow> nat" where
  "entity_score ontologies entity =
     fold (\<lambda>graph score. score + graph_score graph entity) ontologies 0"

definition entity_scores :: "rdf_term list \<Rightarrow> graph list \<Rightarrow> (rdf_term \<times> nat) list" where
  "entity_scores entities ontologies =
     fold (\<lambda>entity scores. dict_set entity (entity_score ontologies entity) scores) entities []"

fun max_by_score :: "('a \<times> nat) list \<Rightarrow> ('a \<times> nat) option" where
  "max_by_score [] = None"
| "max_by_score (x # xs) = Some (fold (\<lambda>y best. if snd best < snd y then y else best) xs x)"

definition choose_canonical_entity :: "rdf_term list \<Rightarrow> graph list \<Rightarrow> rdf_term option" where
  "choose_canonical_entity entities ontologies =
     map_option fst (max_by_score (entity_scores entities ontologies))"

text \<open>One group of \<open>create_entity_mappings\<close>: \<open>members\<close> is \<open>list(class_set)\<close>. The
  branch \<open>None\<close> stands for the \<open>ValueError\<close> of an empty list, which the test on the
  length excludes.\<close>

definition map_group ::
  "graph list \<Rightarrow> rdf_term list \<Rightarrow> (rdf_term \<times> rdf_term) list \<Rightarrow> (rdf_term \<times> rdf_term) list" where
  "map_group ontologies members mappings =
     (if length members > 1
      then (case choose_canonical_entity members ontologies of
              None \<Rightarrow> mappings
            | Some canonical \<Rightarrow>
                fold (\<lambda>e m. if e \<noteq> canonical then dict_set e canonical m else m) members mappings)
      else mappings)"

definition create_entity_mappings :: "merger \<Rightarrow> groups \<Rightarrow> groups \<Rightarrow> graph list \<Rightarrow> merger" where
  "create_entity_mappings st similar_classes similar_properties ontologies =
     st\<lparr>class_mappings :=
          fold (\<lambda>(group_name, class_set). map_group ontologies class_set)
               similar_classes (class_mappings st),
        property_mappings :=
          fold (\<lambda>(group_name, prop_set). map_group ontologies prop_set)
               similar_properties (property_mappings st)\<rparr>"

definition apply_mapping :: "merger \<Rightarrow> rdf_term \<Rightarrow> rdf_term" where
  "apply_mapping st entity =
     (case dict_get (class_mappings st) entity of
        Some c \<Rightarrow> c
      | None \<Rightarrow> (case dict_get (property_mappings st) entity of
                   Some c \<Rightarrow> c
                 | None \<Rightarrow> entity))"

section \<open>The strategic merger: rewriting, inverse declarations, statistics\<close>

definition map_triple :: "merger \<Rightarrow> triple \<Rightarrow> triple" where
  "map_triple st t =
     (case t of (s, p, ob) \<Rightarrow>
        (apply_mapping st s, apply_mapping st p,
         if is_URIRef ob then apply_mapping st ob else ob))"

definition add_graph_with_mappings :: "merger \<Rightarrow> graph \<Rightarrow> merger" where
  "add_graph_with_mappings st graph =
     fold (\<lambda>t st'. st'\<lparr>merged_graph := graph_add (map_triple st' t) (merged_graph st')\<rparr>)
          graph st"

definition add_inverse_property_declarations :: "merger \<Rightarrow> merger" where
  "add_inverse_property_declarations st =
     fold (\<lambda>(prop1, prop2) st'.
             (let mapped_prop1 = apply_mapping st' prop1;
                  mapped_prop2 = apply_mapping st' prop2
              in if mapped_prop1 \<noteq> mapped_prop2
                 then st'\<lparr>merged_graph :=
                            graph_add (mapped_prop1, OWL_inverseOf, mapped_prop2) (merged_graph st')\<rparr>
                 else st'))
          (inverse_properties st) st"

text \<open>\<open>clean_redundant_restrictions\<close> scans the restrictions, but the body of the scan is
  \<open>pass\<close>: \<open>restrictions_to_remove\<close> stays empty and the removal loop has nothing to
  remove.\<close>

definition clean_redundant_restrictions :: "merger \<Rightarrow> merger" where
  "clean_redundant_restrictions st =
     (let restrictions_to_remove = ([] :: triple list)
      in st\<lparr>merged_graph := fold graph_remove restrictions_to_remove (merged_graph st)\<rparr>)"


section \<open>The strategic merger: the merge\<close>

text \<open>
  \<open>merge_ontologies\<close> runs inside one \<open>try\<close> whose handler logs the error and returns
  \<open>None\<close>. Each source is given by what the Turtle parser makes of it: \<open>Some\<close> graph,
  or \<open>None\<close> when \<open>Graph.parse\<close> raises. The parsing loop comes first, so a source
  that does not parse ends the call before the state is touched; \<open>merge_parsed\<close> is
  the rest of the body, run on the parsed graphs. The essential entities
  computed from the competency questions are never read and are left out. The serializer
  is a collaborator and is taken to succeed: the result stands for the serialization of
  the merged graph, together with the state the call leaves in the engine.
\<close>

fun parse_all :: "graph option list \<Rightarrow> graph list option" where
  "parse_all [] = Some []"
| "parse_all (None # cs) = None"
| "parse_all (Some g # cs) = map_option ((#) g) (parse_all cs)"

definition merge_parsed :: "merger \<Rightarrow> graph list \<Rightarrow> merger" where
  "merge_parsed st ontologies =
     (let similar_classes = find_similar_classes ontologies;
          (st1, similar_properties) = find_similar_properties st ontologies;
          st2 = create_entity_mappings st1 similar_classes similar_properties ontologies;
          st3 = fold (\<lambda>graph st'. add_graph_with_mappings st' graph) ontologies st2;
          st4 = add_inverse_property_declarations st3
      in clean_redundant_restrictions st4)"

definition merge_ontologies :: "merger \<Rightarrow> graph option list \<Rightarrow> merger \<times> graph option" where
  "merge_ontologies st ontology_contents =
     (case parse_all ontology_contents of
        None \<Rightarrow> (st, None)
      | Some ontologies \<Rightarrow>
          (let st' = merge_parsed st ontologies in (st', Some (merged_graph st'))))"

section \<open>The duplicate merger of a single graph\<close>

text \<open>
  \<open>transfer_relationships\<close> of \<open>duplicate_utils\<close> works on one graph in place: it
  adds \<open>(s, p, target)\<close> for every statement with the source as object, then
  \<open>(target, p, o)\<close> for every statement with the source as subject whose predicate is
  neither \<open>rdf:type\<close> nor \<open>rdfs:label\<close>. Each loop enumerates the statements
  of the source as the graph has them when the loop starts; the statements a loop adds
  are about the target.
\<close>

definition transfer_relationships :: "graph \<Rightarrow> rdf_term \<Rightarrow> rdf_term \<Rightarrow> graph" where
  "transfer_relationships g source_uri target_uri =
     (let g1 = fold (\<lambda>(s, p, ob) g'. graph_add (s, p, target_uri) g')
                    (triples_o g source_uri) g
      in fold (\<lambda>(s, p, ob) g'.
                 if p \<noteq> RDF_type \<and> p \<noteq> RDFS_label then graph_add (target_uri, p, ob) g'
                 else g')
              (triples_s g1 source_uri) g1)"

section \<open>The claims in the words of the specification\<close>

text \<open>
  The specification describes the score of a node as the number of statements with the
  node as subject, summed over the source graphs, plus 2 when the node has a label and 2
  when it has a comment. \<open>spec_score\<close> is that description with each bonus counted
  once for the node; it is compared with \<open>entity_score\<close>, which is the code.
\<close>

definition subject_count :: "graph \<Rightarrow> rdf_term \<Rightarrow> nat" where
  "subject_count g n = length (filter (\<lambda>(s, p, ob). s = n) g)"

definition has_annotation :: "graph \<Rightarrow> rdf_term \<Rightarrow> rdf_term \<Rightarrow> bool" where
  "has_annotation g n a = list_ex (\<lambda>(s, p, ob). s = n \<and> p = a) g"

definition spec_score :: "graph list \<Rightarrow> rdf_term \<Rightarrow> nat" where
  "spec_score ontologies n =
     sum_list (map (\<lambda>g. subject_count g n) ontologies)
       + (if list_ex (\<lambda>g. has_annotation g n RDFS_label) ontologies then 2 else 0)
       + (if list_ex (\<lambda>g. has_annotation g n RDFS_comment) ontologies then 2 else 0)"

text \<open>
  A node is mapped when it is a key of one of the two mapping tables, that is, a member
  of a duplicate group that was not chosen canonical. A state is free of chains when no
  value of the tables is a key. Groups are disjoint when no node is a member of two of
  them.
\<close>

definition mapped :: "merger \<Rightarrow> rdf_term \<Rightarrow> bool" where
  "mapped st n =
     (dict_get (class_mappings st) n \<noteq> None \<or> dict_get (property_mappings st) n \<noteq> None)"


fun disjoint_groups :: "rdf_term list list \<Rightarrow> bool" where
  "disjoint_groups [] = True"
| "disjoint_groups (g # gs) =
     (list_all (\<lambda>h. list_all (\<lambda>x. x \<notin> set h) g) gs \<and> disjoint_groups gs)"



text \<open>An upper-case ASCII letter, as the backward tokens of the inverse patterns have
  one.\<close>

definition is_upper :: "char \<Rightarrow> bool" where
  "is_upper c = (let n = (of_char c :: nat) in 65 \<le> n \<and> n \<le> 90)"

section \<open>Example inputs\<close>

text \<open>The base URI the constructor takes by default.\<close>

definition ex_base :: string where
  "ex_base = ''http://www.example.org/test#''"

text \<open>Two sources that describe one concept, the second with a label and a comment; the
  second source cut down to two statements; and the two sources with the stub also as
  the object of a statement.\<close>

definition ex_stub :: rdf_term where
  "ex_stub = URIRef ''http://a.org/onto#DrowsinessState''"

definition ex_rich :: rdf_term where
  "ex_rich = URIRef ''http://b.org/onto#Drowsiness''"

definition ex_sources :: "graph list" where
  "ex_sources =
     [[(ex_stub, RDF_type, OWL_Class)],
      [(ex_rich, RDF_type, OWL_Class),
       (ex_rich, RDFS_label, Literal ''Drowsiness'' (Some ''en'') None),
       (ex_rich, RDFS_comment, Literal ''The driver is drowsy'' (Some ''en'') None)]]"

definition ex_valid_source :: graph where
  "ex_valid_source =
     [(ex_rich, RDF_type, OWL_Class),
      (ex_rich, RDFS_label, Literal ''Drowsiness'' (Some ''en'') None)]"




text \<open>A node that carries a label in each of two sources.\<close>

definition ex_n :: rdf_term where
  "ex_n = URIRef ''http://x.org/onto#Drowsiness''"

definition ex_labelled_twice :: "graph list" where
  "ex_labelled_twice =
     [[(ex_n, RDFS_label, Literal ''Drowsiness'' None None)],
      [(ex_n, RDFS_label, Literal ''Drowsy'' None None)]]"




text \<open>Two object properties named after the pattern \<open>detects\<close> / \<open>detectedBy\<close>,
  and a state of the engine in which the two are a candidate pair mapped to one
  property.\<close>

definition ex_detects :: rdf_term where
  "ex_detects = URIRef ''http://a.org/onto#detectsDrowsiness''"

definition ex_detectedBy :: rdf_term where
  "ex_detectedBy = URIRef ''http://b.org/onto#detectedByDrowsiness''"

definition ex_inverse_sources :: "graph list" where
  "ex_inverse_sources =
     [[(ex_detects, RDF_type, OWL_ObjectProperty)],
      [(ex_detectedBy, RDF_type, OWL_ObjectProperty)]]"

definition ex_self_inverse_state :: merger where
  "ex_self_inverse_state =
     (init ex_base)\<lparr>property_mappings := [(ex_detects, ex_detectedBy)],
                     inverse_properties := [(ex_detects, ex_detectedBy)]\<rparr>"

text \<open>A source that declares a symmetric property as its own inverse.\<close>

definition ex_symmetric :: rdf_term where
  "ex_symmetric = URIRef ''http://a.org/onto#adjacentTo''"

definition ex_symmetric_source :: graph where
  "ex_symmetric_source =
     [(ex_symmetric, RDF_type, OWL_ObjectProperty),
      (ex_symmetric, OWL_inverseOf, ex_symmetric)]"

text \<open>
  Two sources in the one name space. The class \<open>Alert\<close> is labelled
  \<open>Alert\<close> in the first and \<open>Warning\<close> in the second, so it is collected under
  two normalized names, beside \<open>AlertState\<close> under the first and \<open>WarningType\<close>
  under the second.
\<close>

definition ex_alert :: rdf_term where
  "ex_alert = URIRef ''http://www.example.org/test#Alert''"

definition ex_alert_state :: rdf_term where
  "ex_alert_state = URIRef ''http://www.example.org/test#AlertState''"

definition ex_warning_type :: rdf_term where
  "ex_warning_type = URIRef ''http://www.example.org/test#WarningType''"

definition ex_chain_sources :: "graph list" where
  "ex_chain_sources =
     [[(ex_alert, RDF_type, OWL_Class),
       (ex_alert, RDFS_label, Literal ''Alert'' None None),
       (ex_alert_state, RDF_type, OWL_Class),
       (ex_alert_state, RDFS_label, Literal ''Alert State'' None None),
       (ex_alert_state, RDFS_comment, Literal ''The state of an alert'' None None),
       (ex_alert_state, RDFS_subClassOf, URIRef ''http://www.example.org/test#State''),
       (ex_alert_state, RDFS_subClassOf, URIRef ''http://www.example.org/test#Signal'')],
      [(ex_alert, RDF_type, OWL_Class),
       (ex_alert, RDFS_label, Literal ''Warning'' None None),
       (ex_warning_type, RDF_type, OWL_Class)]]"



section \<open>Containers and scores\<close>

lemma fold_add_sum_list:
  "fold (\<lambda>x (s::nat). s + f x) xs a = a + sum_list (map f xs)"
  by (induction xs arbitrary: a) auto

lemma entity_score_sum:
  "entity_score ontologies entity = sum_list (map (\<lambda>g. graph_score g entity) ontologies)"
  by (simp add: entity_score_def fold_add_sum_list)

lemma set_set_list [simp]: "set (set_list xs) = set xs"
  by (induction xs) auto

lemma distinct_set_list [simp]: "distinct (set_list xs)"
  by (induction xs) auto

lemma set_list_append:
  "set_list (xs @ ys) = set_list xs @ filter (\<lambda>y. y \<notin> set xs) (set_list ys)"
proof (induction xs)
  case Nil
  then show ?case by simp
next
  case (Cons x xs)
  have "filter (\<lambda>y. y \<noteq> x) (filter (\<lambda>y. y \<notin> set xs) (set_list ys))
          = filter (\<lambda>y. y \<notin> set (x # xs)) (set_list ys)"
    by (simp add: conj_commute)
  with Cons show ?case by simp
qed

lemma dict_set_map:
  "dict_set e (f e) (map (\<lambda>k. (k, f k)) ks) =
     (if e \<in> set ks then map (\<lambda>k. (k, f k)) ks else map (\<lambda>k. (k, f k)) (ks @ [e]))"
  by (induction ks) auto

lemma fold_dict_set_map:
  "fold (\<lambda>e d. dict_set e (f e) d) es (map (\<lambda>k. (k, f k)) ks) =
     map (\<lambda>k. (k, f k)) (ks @ filter (\<lambda>e. e \<notin> set ks) (set_list es))"
proof (induction es arbitrary: ks)
  case Nil
  then show ?case by simp
next
  case (Cons e es)
  show ?case
  proof (cases "e \<in> set ks")
    case True
    have "filter (\<lambda>y. y \<notin> set ks) (filter (\<lambda>y. y \<noteq> e) (set_list es))
            = filter (\<lambda>y. y \<notin> set ks) (set_list es)"
      using True by (auto intro: filter_cong)
    with True Cons.IH [of ks] show ?thesis
      by (simp add: dict_set_map)
  next
    case False
    have "filter (\<lambda>y. y \<notin> set ks) (filter (\<lambda>y. y \<noteq> e) (set_list es))
            = filter (\<lambda>y. y \<notin> set (ks @ [e])) (set_list es)"
      by (auto intro: filter_cong)
    with False Cons.IH [of "ks @ [e]"] show ?thesis
      by (simp add: dict_set_map)
  qed
qed

lemma entity_scores_eq:
  "entity_scores entities ontologies =
     map (\<lambda>e. (e, entity_score ontologies e)) (set_list entities)"
  using fold_dict_set_map [of "entity_score ontologies" entities "[]"]
  by (simp add: entity_scores_def)

lemma fold_max_split:
  "\<exists>ps ss. (x :: 'a \<times> nat) # xs
        = ps @ fold (\<lambda>y best. if snd best < snd y then y else best) xs x # ss
      \<and> (\<forall>y\<in>set ps. snd y < snd (fold (\<lambda>y best. if snd best < snd y then y else best) xs x))
      \<and> (\<forall>y\<in>set ss. snd y \<le> snd (fold (\<lambda>y best. if snd best < snd y then y else best) xs x))"
proof (induction xs arbitrary: x)
  case Nil
  show ?case by (intro exI [of _ "[]"]) simp
next
  case (Cons y ys)
  let ?f = "\<lambda>(y :: 'a \<times> nat) best. if snd best < snd y then y else best"
  show ?case
  proof (cases "snd x < snd y")
    case True
    define b where "b = fold ?f ys y"
    from Cons [of y] obtain ps ss where d: "y # ys = ps @ b # ss"
      and lo: "\<forall>z\<in>set ps. snd z < snd b"
      and hi: "\<forall>z\<in>set ss. snd z \<le> snd b"
      unfolding b_def by blast
    have "snd y \<le> snd b"
    proof (cases ps)
      case Nil
      with d show ?thesis by simp
    next
      case (Cons p ps')
      with d have "p = y" by simp
      with Cons lo show ?thesis by simp
    qed
    with True have xb: "snd x < snd b" by simp
    have fb: "fold ?f (y # ys) x = b"
      using True by (simp add: b_def)
    from d lo hi xb have "x # y # ys = (x # ps) @ b # ss
        \<and> (\<forall>z\<in>set (x # ps). snd z < snd b) \<and> (\<forall>z\<in>set ss. snd z \<le> snd b)"
      by simp
    then show ?thesis unfolding fb by blast
  next
    case False
    define b where "b = fold ?f ys x"
    from Cons [of x] obtain ps ss where d: "x # ys = ps @ b # ss"
      and lo: "\<forall>z\<in>set ps. snd z < snd b"
      and hi: "\<forall>z\<in>set ss. snd z \<le> snd b"
      unfolding b_def by blast
    have fb: "fold ?f (y # ys) x = b"
      using False by (simp add: b_def)
    show ?thesis
    proof (cases ps)
      case Nil
      with d have bx: "b = x" and "ss = ys" by simp_all
      with hi False have "x # y # ys = [] @ b # (y # ys)
        \<and> (\<forall>z\<in>set []. snd z < snd b) \<and> (\<forall>z\<in>set (y # ys). snd z \<le> snd b)"
        by simp
      then show ?thesis unfolding fb by blast
    next
      case (Cons p ps')
      with d have px: "p = x" and ys: "ys = ps' @ b # ss" by simp_all
      from Cons px lo have "snd x < snd b" by simp
      with False have yb: "snd y < snd b" by simp
      from ys have "x # y # ys = (x # y # ps') @ b # ss" by simp
      moreover from lo Cons px yb have "\<forall>z\<in>set (x # y # ps'). snd z < snd b" by simp
      ultimately show ?thesis unfolding fb using hi by blast
    qed
  qed
qed

lemma max_by_score_split:
  assumes "max_by_score xs = Some b"
  shows "\<exists>ps ss. xs = ps @ b # ss \<and> (\<forall>y\<in>set ps. snd y < snd b) \<and> (\<forall>y\<in>set ss. snd y \<le> snd b)"
proof (cases xs)
  case Nil
  with assms show ?thesis by simp
next
  case (Cons x xs')
  with assms fold_max_split [of x xs'] show ?thesis by simp
qed

lemma max_by_score_Some: "xs \<noteq> [] \<Longrightarrow> \<exists>b. max_by_score xs = Some b"
  by (cases xs) simp_all

lemma triples_sp_nonempty:
  "(triples_sp g n a \<noteq> []) = has_annotation g n a"
  by (induction g) (auto simp: triples_sp_def has_annotation_def)

lemma graph_score_eq:
  "graph_score g n = subject_count g n + (if has_annotation g n RDFS_label then 2 else 0)
      + (if has_annotation g n RDFS_comment then 2 else 0)"
  by (simp add: graph_score_def triples_sp_nonempty subject_count_def triples_s_def)

lemma sum_list_bonus:
  "sum_list (map (\<lambda>g. if P g then (2::nat) else 0) gs) = 2 * length (filter P gs)"
  by (induction gs) auto

lemma entity_score_eq:
  "entity_score ontologies n =
     sum_list (map (\<lambda>g. subject_count g n) ontologies)
       + 2 * length (filter (\<lambda>g. has_annotation g n RDFS_label) ontologies)
       + 2 * length (filter (\<lambda>g. has_annotation g n RDFS_comment) ontologies)"
proof -
  have "entity_score ontologies n =
      sum_list (map (\<lambda>g. subject_count g n) ontologies)
       + sum_list (map (\<lambda>g. if has_annotation g n RDFS_label then (2::nat) else 0) ontologies)
       + sum_list (map (\<lambda>g. if has_annotation g n RDFS_comment then (2::nat) else 0) ontologies)"
    unfolding entity_score_sum graph_score_eq by (simp add: sum_list_addf)
  then show ?thesis by (simp only: sum_list_bonus)
qed

lemma bonus_once:
  "length (filter P gs) \<le> 1 \<Longrightarrow> 2 * length (filter P gs) = (if list_ex P gs then (2::nat) else 0)"
  by (induction gs) (auto simp: list_ex_iff filter_empty_conv split: if_splits)



lemma choose_canonical_split:
  assumes "entities \<noteq> []"
  shows "\<exists>c ps ss. choose_canonical_entity entities ontologies = Some c
           \<and> entities = ps @ c # ss
           \<and> (\<forall>e\<in>set ps. entity_score ontologies e < entity_score ontologies c)
           \<and> (\<forall>e\<in>set ss. entity_score ontologies e \<le> entity_score ontologies c)"
proof -
  let ?sc = "entity_score ontologies"
  let ?g = "\<lambda>e. (e, ?sc e)"
  from assms have "entity_scores entities ontologies \<noteq> []"
    by (cases entities) (simp_all add: entity_scores_eq)
  then obtain b where b: "max_by_score (entity_scores entities ontologies) = Some b"
    using max_by_score_Some by blast
  from max_by_score_split [OF b] obtain ps' ss' where
    d: "map ?g (set_list entities) = ps' @ b # ss'"
    and lo: "\<forall>y\<in>set ps'. snd y < snd b" and hi: "\<forall>y\<in>set ss'. snd y \<le> snd b"
    unfolding entity_scores_eq by blast
  from d have bin: "b \<in> set (map ?g (set_list entities))" by simp
  then obtain c where cin: "c \<in> set entities" and bc: "b = (c, ?sc c)" by auto
  have sb: "snd b = ?sc c" and fb: "fst b = c" by (simp_all add: bc)
  have all_le: "\<forall>e\<in>set entities. ?sc e \<le> ?sc c"
  proof
    fix e assume "e \<in> set entities"
    then have "?g e \<in> set (ps' @ b # ss')" unfolding d [symmetric] by simp
    then have "snd (?g e) \<le> snd b" using lo hi by (auto simp: less_imp_le)
    then show "?sc e \<le> ?sc c" by (simp add: sb)
  qed
  from cin obtain ps ss where e: "entities = ps @ c # ss" and cps: "c \<notin> set ps"
    by (meson split_list_first)
  have sl: "set_list entities = set_list ps @ c # filter (\<lambda>y. y \<notin> set ps) (filter (\<lambda>y. y \<noteq> c) (set_list ss))"
    using cps by (simp add: e set_list_append)
  have eq: "map ?g (set_list ps) @ b # map ?g (filter (\<lambda>y. y \<notin> set ps) (filter (\<lambda>y. y \<noteq> c) (set_list ss)))
          = ps' @ b # ss'"
    unfolding d [symmetric] sl by (simp add: bc)
  have n1: "b \<notin> set (map ?g (set_list ps))"
    using cps by (auto simp: bc)
  have n2: "b \<notin> set (map ?g (filter (\<lambda>y. y \<notin> set ps) (filter (\<lambda>y. y \<noteq> c) (set_list ss))))"
    by (auto simp: bc)
  have pp: "map ?g (set_list ps) = ps'"
    by (rule conjunct1 [OF iffD1 [OF append_Cons_eq_iff [OF n1 n2] eq]])
  have "\<forall>e\<in>set ps. snd (?g e) < snd b"
    using lo unfolding pp [symmetric] by simp
  then have lt: "\<forall>e\<in>set ps. ?sc e < ?sc c"
    by (simp add: sb)
  have le: "\<forall>e\<in>set ss. ?sc e \<le> ?sc c"
    using all_le by (simp add: e)
  have ch: "choose_canonical_entity entities ontologies = Some c"
    by (simp add: choose_canonical_entity_def b fb)
  show ?thesis
    by (intro exI [of _ c] exI [of _ ps] exI [of _ ss] conjI ch e lt le)
qed

section \<open>The canonical selector\<close>

text \<open>
  Claim C4, as the code has it. The score of a node is the number of statements with the
  node as subject, summed over the source graphs, plus 2 for every source graph in which
  the node has a label and 2 for every source graph in which it has a comment: the
  bonuses are added inside the loop over the graphs. When the node is labelled in at most
  one graph and commented in at most one, this is the score of the specification. Of a
  group that is not empty, a member with the highest score is chosen canonical.
\<close>

theorem canonical_score_per_graph:
  "entity_score ontologies n =
      sum_list (map (\<lambda>g. subject_count g n) ontologies)
        + 2 * length (filter (\<lambda>g. has_annotation g n RDFS_label) ontologies)
        + 2 * length (filter (\<lambda>g. has_annotation g n RDFS_comment) ontologies)
   \<and> (length (filter (\<lambda>g. has_annotation g n RDFS_label) ontologies) \<le> 1
        \<and> length (filter (\<lambda>g. has_annotation g n RDFS_comment) ontologies) \<le> 1
       \<longrightarrow> entity_score ontologies n = spec_score ontologies n)
   \<and> (entities \<noteq> [] \<longrightarrow>
        (\<exists>c. choose_canonical_entity entities ontologies = Some c \<and> c \<in> set entities
           \<and> (\<forall>e\<in>set entities. entity_score ontologies e \<le> entity_score ontologies c)))"
proof (intro conjI impI)
  show "entity_score ontologies n =
      sum_list (map (\<lambda>g. subject_count g n) ontologies)
        + 2 * length (filter (\<lambda>g. has_annotation g n RDFS_label) ontologies)
        + 2 * length (filter (\<lambda>g. has_annotation g n RDFS_comment) ontologies)"
    by (rule entity_score_eq)
next
  assume "length (filter (\<lambda>g. has_annotation g n RDFS_label) ontologies) \<le> 1
        \<and> length (filter (\<lambda>g. has_annotation g n RDFS_comment) ontologies) \<le> 1"
  then show "entity_score ontologies n = spec_score ontologies n"
    by (simp only: entity_score_eq spec_score_def bonus_once)
next
  assume "entities \<noteq> []"
  from choose_canonical_split [OF this, of ontologies] obtain c ps ss where
    ch: "choose_canonical_entity entities ontologies = Some c"
    and e: "entities = ps @ c # ss"
    and lt: "\<forall>e\<in>set ps. entity_score ontologies e < entity_score ontologies c"
    and le: "\<forall>e\<in>set ss. entity_score ontologies e \<le> entity_score ontologies c"
    by blast
  have "c \<in> set entities" by (simp add: e)
  moreover have "\<forall>x\<in>set entities. entity_score ontologies x \<le> entity_score ontologies c"
    using lt le by (auto simp: e less_imp_le)
  ultimately show "\<exists>c. choose_canonical_entity entities ontologies = Some c \<and> c \<in> set entities
           \<and> (\<forall>e\<in>set entities. entity_score ontologies e \<le> entity_score ontologies c)"
    using ch by blast
qed

text \<open>The instance of C4 at the two example sources.\<close>

theorem canonical_score_per_graph_witness:
  "(length (filter (\<lambda>g. has_annotation g ex_rich RDFS_label) ex_sources) \<le> 1
      \<and> length (filter (\<lambda>g. has_annotation g ex_rich RDFS_comment) ex_sources) \<le> 1)
   \<and> [ex_stub, ex_rich] \<noteq> []
   \<and> entity_score ex_sources ex_rich = spec_score ex_sources ex_rich
   \<and> (\<exists>c. choose_canonical_entity [ex_stub, ex_rich] ex_sources = Some c
         \<and> c \<in> set [ex_stub, ex_rich]
         \<and> (\<forall>e\<in>set [ex_stub, ex_rich]. entity_score ex_sources e \<le> entity_score ex_sources c))"
proof -
  have h: "length (filter (\<lambda>g. has_annotation g ex_rich RDFS_label) ex_sources) \<le> 1
      \<and> length (filter (\<lambda>g. has_annotation g ex_rich RDFS_comment) ex_sources) \<le> 1"
    by code_simp
  have n: "[ex_stub, ex_rich] \<noteq> []" by simp
  from canonical_score_per_graph [of ex_sources ex_rich "[ex_stub, ex_rich]"] h n
  show ?thesis by blast
qed

text \<open>
  Claim C4 as stated fails: a node with one label statement in each of two sources scores
  \<open>(1 + 2) + (1 + 2) = 6\<close>, while two statements and a single bonus give \<open>4\<close>.
\<close>

theorem canonical_score_counterexample:
  "entity_score ex_labelled_twice ex_n = 6 \<and> spec_score ex_labelled_twice ex_n = 4"
  by code_simp




section \<open>Inverse candidates\<close>

lemma lower_char_not_upper: "\<not> is_upper (lower_char c)"
  by (auto simp: is_upper_def lower_char_def Let_def)

lemma lower_no_upper: "c \<in> set (lower s) \<Longrightarrow> \<not> is_upper c"
  by (auto simp: lower_def lower_char_not_upper)

lemma sublist_lower_no_upper:
  assumes "sublist x (lower s)" and "c \<in> set x"
  shows "\<not> is_upper c"
  using assms set_mono_sublist lower_no_upper by blast

lemma replace_keeps_new:
  "old \<noteq> [] \<Longrightarrow> sublist old s \<Longrightarrow> set new \<subseteq> set (replace old new s)"
proof (induction old new s rule: replace.induct)
  case (1 old new)
  then show ?case by simp
next
  case (2 old new c cs)
  show ?case
  proof (cases "prefix old (c # cs)")
    case True
    with 2 show ?thesis by simp
  next
    case False
    with "2.prems" have "sublist old cs"
      by (simp add: sublist_Cons_right)
    with 2 False show ?thesis by auto
  qed
qed

lemma props_containing_upper:
  assumes "c \<in> set searched" and "is_upper c"
  shows "props_containing searched all_properties = []"
proof -
  have "\<not> sublist searched (lower full_name)" for full_name
    using assms sublist_lower_no_upper by blast
  then show ?thesis
    by (auto simp: props_containing_def filter_empty_conv)
qed

lemma backward_has_upper:
  "(forward, backward) \<in> set inverse_patterns \<Longrightarrow>
     forward \<noteq> [] \<and> (\<exists>c\<in>set backward. is_upper c)"
  by (auto simp: inverse_patterns_def is_upper_def)

lemma find_inverse_candidates_Nil: "find_inverse_candidates prop_name all_properties = []"
proof -
  have "(if sublist forward (lower prop_name)
         then props_containing (replace forward backward (lower prop_name)) all_properties
         else if sublist backward (lower prop_name)
         then props_containing (replace backward forward (lower prop_name)) all_properties
         else []) = []"
    if fb: "(forward, backward) \<in> set inverse_patterns" for forward backward
  proof -
    from backward_has_upper [OF fb] obtain c where
      ne: "forward \<noteq> []" and c: "c \<in> set backward" and up: "is_upper c" by blast
    have nb: "\<not> sublist backward (lower prop_name)"
      using sublist_lower_no_upper c up by blast
    show ?thesis
    proof (cases "sublist forward (lower prop_name)")
      case True
      from replace_keeps_new [OF ne True, of backward] c
      have "c \<in> set (replace forward backward (lower prop_name))" by blast
      from props_containing_upper [OF this up] True show ?thesis by simp
    next
      case False
      with nb show ?thesis by simp
    qed
  qed
  then show ?thesis
    by (auto simp: find_inverse_candidates_def Let_def)
qed

lemma fold_id: "(\<And>x a. x \<in> set xs \<Longrightarrow> f x a = a) \<Longrightarrow> fold f xs a = a"
  by (induction xs arbitrary: a) auto

lemma record_inverses_id: "record_inverses all_properties table = table"
  unfolding record_inverses_def
  by (rule fold_id) (auto simp: find_inverse_candidates_Nil)

lemma fst_find_similar_properties: "fst (find_similar_properties st ontologies) = st"
  by (simp add: find_similar_properties_def Let_def record_inverses_id)

text \<open>
  Claim C6 at two properties named \<open>detectsDrowsiness\<close> and
  \<open>detectedByDrowsiness\<close>: the search pairs neither with the other. The name is
  lowered before the tokens are looked up and substituted, every backward token has an
  upper-case letter, and the names searched are lowered too: the substituted name
  \<open>detectedBydrowsiness\<close> does not occur in \<open>detectedbydrowsiness\<close>, and a backward
  token never occurs in a lowered name. By \<open>find_inverse_candidates_Nil\<close> this holds
  for every name and every table.
\<close>

theorem inverse_candidates_never_found:
  "collect_properties ex_inverse_sources =
      [(''detectsdrowsiness'', [(ex_detects, 0, None, ''detectsDrowsiness'')]),
       (''detectedbydrowsiness'', [(ex_detectedBy, 1, None, ''detectedByDrowsiness'')])]
   \<and> replace ''detects'' ''detectedBy'' (lower ''detectsDrowsiness'') = ''detectedBydrowsiness''
   \<and> find_inverse_candidates ''detectsDrowsiness'' (collect_properties ex_inverse_sources) = []
   \<and> find_inverse_candidates ''detectedByDrowsiness'' (collect_properties ex_inverse_sources) = []
   \<and> inverse_properties (fst (find_similar_properties (init ''http://www.example.org/test#'')
        ex_inverse_sources)) = []"
  by code_simp

section \<open>Rewriting and inverse declarations\<close>

lemma set_graph_add [simp]: "set (graph_add t g) = insert t (set g)"
  by (auto simp: graph_add_def)

lemma apply_mapping_cong:
  "class_mappings st = class_mappings st' \<Longrightarrow> property_mappings st = property_mappings st'
     \<Longrightarrow> apply_mapping st = apply_mapping st'"
  by (rule ext) (auto simp: apply_mapping_def split: option.splits)

lemma map_triple_cong:
  "class_mappings st = class_mappings st' \<Longrightarrow> property_mappings st = property_mappings st'
     \<Longrightarrow> map_triple st = map_triple st'"
  by (rule ext) (auto simp: map_triple_def apply_mapping_cong [of st st'] split: prod.splits)

lemma map_triple_merged_graph [simp]: "map_triple (st\<lparr>merged_graph := m\<rparr>) = map_triple st"
  by (rule map_triple_cong) simp_all

lemma apply_mapping_merged_graph [simp]:
  "apply_mapping (st\<lparr>merged_graph := m\<rparr>) = apply_mapping st"
  by (rule apply_mapping_cong) simp_all

lemma fold_merged_graph:
  assumes "\<And>x s. f x s = s\<lparr>merged_graph := h s x (merged_graph s)\<rparr>"
    and "\<And>s m. h (s\<lparr>merged_graph := m\<rparr>) = h s"
  shows "fold f xs st = st\<lparr>merged_graph := fold (h st) xs (merged_graph st)\<rparr>"
proof (induction xs arbitrary: st)
  case Nil
  show ?case by simp
next
  case (Cons x xs)
  show ?case
    by (simp add: Cons.IH) (simp add: assms)
qed

lemma add_graph_with_mappings_eq:
  "add_graph_with_mappings st graph =
     st\<lparr>merged_graph := fold (\<lambda>t m. graph_add (map_triple st t) m) graph (merged_graph st)\<rparr>"
  unfolding add_graph_with_mappings_def
  by (rule fold_merged_graph [where h = "\<lambda>s t m. graph_add (map_triple s t) m"]) simp_all

lemma set_fold_graph_add:
  "set (fold (\<lambda>t m. graph_add (h t) m) g m0) = set m0 \<union> h ` set g"
  by (induction g arbitrary: m0) auto

lemma add_graph_with_mappings_set:
  "set (merged_graph (add_graph_with_mappings st graph)) =
     set (merged_graph st) \<union> map_triple st ` set graph"
  by (simp add: add_graph_with_mappings_eq set_fold_graph_add)

lemma add_graph_with_mappings_tables [simp]:
  "class_mappings (add_graph_with_mappings st graph) = class_mappings st"
  "property_mappings (add_graph_with_mappings st graph) = property_mappings st"
  "inverse_properties (add_graph_with_mappings st graph) = inverse_properties st"
  by (simp_all add: add_graph_with_mappings_eq)

lemma add_graphs_tables [simp]:
  "class_mappings (fold (\<lambda>graph st'. add_graph_with_mappings st' graph) ontologies st)
     = class_mappings st"
  "property_mappings (fold (\<lambda>graph st'. add_graph_with_mappings st' graph) ontologies st)
     = property_mappings st"
  "inverse_properties (fold (\<lambda>graph st'. add_graph_with_mappings st' graph) ontologies st)
     = inverse_properties st"
  by (induction ontologies arbitrary: st) simp_all

lemma add_graphs_set:
  "set (merged_graph (fold (\<lambda>graph st'. add_graph_with_mappings st' graph) ontologies st)) =
     set (merged_graph st) \<union> map_triple st ` (\<Union>g\<in>set ontologies. set g)"
proof (induction ontologies arbitrary: st)
  case Nil
  show ?case by simp
next
  case (Cons g gs)
  have "map_triple (add_graph_with_mappings st g) = map_triple st"
    by (rule map_triple_cong) simp_all
  then show ?case
    by (simp add: Cons.IH add_graph_with_mappings_set) blast
qed

lemma add_inverse_property_declarations_eq:
  "add_inverse_property_declarations st =
     st\<lparr>merged_graph :=
          fold (\<lambda>(prop1, prop2) m.
                  if apply_mapping st prop1 \<noteq> apply_mapping st prop2
                  then graph_add (apply_mapping st prop1, OWL_inverseOf, apply_mapping st prop2) m
                  else m)
               (inverse_properties st) (merged_graph st)\<rparr>"
  unfolding add_inverse_property_declarations_def
  by (rule fold_merged_graph
        [where h = "\<lambda>s (prop1, prop2) m.
                  if apply_mapping s prop1 \<noteq> apply_mapping s prop2
                  then graph_add (apply_mapping s prop1, OWL_inverseOf, apply_mapping s prop2) m
                  else m"])
     (auto simp: Let_def fun_eq_iff)

lemma set_fold_inverse:
  "set (fold (\<lambda>(prop1, prop2) m.
                  if a prop1 \<noteq> a prop2 then graph_add (a prop1, OWL_inverseOf, a prop2) m else m)
          pairs m0) =
     set m0 \<union> {(a prop1, OWL_inverseOf, a prop2) | prop1 prop2.
                  (prop1, prop2) \<in> set pairs \<and> a prop1 \<noteq> a prop2}"
proof (induction pairs arbitrary: m0)
  case Nil
  show ?case by simp
next
  case (Cons pr pairs)
  obtain p1 p2 where pr: "pr = (p1, p2)" by (cases pr)
  show ?case
  proof (cases "a p1 = a p2")
    case True
    then show ?thesis by (auto simp: pr Cons.IH)
  next
    case False
    then show ?thesis by (simp add: pr Cons.IH) blast
  qed
qed

lemma add_inverse_property_declarations_set:
  "set (merged_graph (add_inverse_property_declarations st)) =
     set (merged_graph st)
       \<union> {(apply_mapping st prop1, OWL_inverseOf, apply_mapping st prop2) | prop1 prop2.
            (prop1, prop2) \<in> set (inverse_properties st)
              \<and> apply_mapping st prop1 \<noteq> apply_mapping st prop2}"
  by (simp add: add_inverse_property_declarations_eq set_fold_inverse)

lemma add_inverse_property_declarations_tables [simp]:
  "class_mappings (add_inverse_property_declarations st) = class_mappings st"
  "property_mappings (add_inverse_property_declarations st) = property_mappings st"
  "inverse_properties (add_inverse_property_declarations st) = inverse_properties st"
  by (simp_all add: add_inverse_property_declarations_eq)

lemma clean_redundant_restrictions_id [simp]: "clean_redundant_restrictions st = st"
  by (simp add: clean_redundant_restrictions_def)

section \<open>The merge as a whole\<close>

lemma create_entity_mappings_fields [simp]:
  "merged_graph (create_entity_mappings st sc sp ontologies) = merged_graph st"
  "inverse_properties (create_entity_mappings st sc sp ontologies) = inverse_properties st"
  by (simp_all add: create_entity_mappings_def)

lemma find_similar_properties_eq:
  "find_similar_properties st ontologies = (st, snd (find_similar_properties st ontologies))"
  using fst_find_similar_properties [of st ontologies]
  by (metis prod.collapse)

lemma merge_parsed_eq:
  "merge_parsed st ontologies =
     add_inverse_property_declarations
       (fold (\<lambda>graph st'. add_graph_with_mappings st' graph) ontologies
          (create_entity_mappings st (find_similar_classes ontologies)
             (snd (find_similar_properties st ontologies)) ontologies))"
  unfolding merge_parsed_def Let_def
  by (subst find_similar_properties_eq) simp


lemma merge_parsed_set:
  "set (merged_graph (merge_parsed st ontologies)) =
     set (merged_graph st)
       \<union> map_triple (merge_parsed st ontologies) ` (\<Union>g\<in>set ontologies. set g)
       \<union> {(apply_mapping (merge_parsed st ontologies) prop1, OWL_inverseOf,
            apply_mapping (merge_parsed st ontologies) prop2) | prop1 prop2.
            (prop1, prop2) \<in> set (inverse_properties st)
              \<and> apply_mapping (merge_parsed st ontologies) prop1
                   \<noteq> apply_mapping (merge_parsed st ontologies) prop2}"
proof -
  let ?st2 = "create_entity_mappings st (find_similar_classes ontologies)
             (snd (find_similar_properties st ontologies)) ontologies"
  let ?st3 = "fold (\<lambda>graph st'. add_graph_with_mappings st' graph) ontologies ?st2"
  have a: "apply_mapping (merge_parsed st ontologies) = apply_mapping ?st3"
    by (rule apply_mapping_cong) (simp_all add: merge_parsed_eq)
  have m: "map_triple (merge_parsed st ontologies) = map_triple ?st2"
    by (rule map_triple_cong) (simp_all add: merge_parsed_eq)
  show ?thesis
    unfolding a m
    by (simp add: merge_parsed_eq add_inverse_property_declarations_set add_graphs_set)
qed

lemma parse_all_Some [simp]: "parse_all (map Some ontologies) = Some ontologies"
  by (induction ontologies) simp_all

lemma parse_all_None: "None \<in> set contents \<Longrightarrow> parse_all contents = None"
proof (induction contents)
  case Nil
  then show ?case by simp
next
  case (Cons c cs)
  then show ?case by (cases c) auto
qed


lemma merge_ontologies_unparsed:
  "None \<in> set contents \<Longrightarrow> merge_ontologies st contents = (st, None)"
  by (simp add: merge_ontologies_def parse_all_None)




text \<open>
  Claim C9 at a source that does not parse followed by one that does: the call returns
  \<open>None\<close> and leaves the engine as it was, where the second source alone gives a
  merged graph. All sources are parsed inside the one \<open>try\<close> of
  \<open>merge_ontologies\<close>, before anything is merged.
\<close>

theorem merge_aborts_on_unparsed_source:
  "merge_ontologies (init ex_base) [None, Some ex_valid_source] = (init ex_base, None)
   \<and> snd (merge_ontologies (init ex_base) [Some ex_valid_source]) =
       Some [(URIRef ''http://www.example.org/test'', RDF_type, OWL_Ontology),
             (ex_rich, RDF_type, OWL_Class),
             (ex_rich, RDFS_label, Literal ''Drowsiness'' (Some ''en'') None)]"
  by code_simp

text \<open>
  Claim C10 at two calls on one engine, the first with the two example sources, the
  second with none: the second call returns the three statements of the first and keeps
  its class mapping, where a new engine returns the declaration alone.
  \<open>merge_ontologies\<close> resets neither the merged graph nor the tables.
\<close>

theorem merge_keeps_state_of_earlier_call:
  "class_mappings (fst (merge_ontologies (init ex_base) (map Some ex_sources)))
      = [(ex_stub, ex_rich)]
   \<and> snd (merge_ontologies (fst (merge_ontologies (init ex_base) (map Some ex_sources))) [])
      = Some [(URIRef ''http://www.example.org/test'', RDF_type, OWL_Ontology),
              (ex_rich, RDF_type, OWL_Class),
              (ex_rich, RDFS_label, Literal ''Drowsiness'' (Some ''en'') None),
              (ex_rich, RDFS_comment, Literal ''The driver is drowsy'' (Some ''en'') None)]
   \<and> class_mappings
        (fst (merge_ontologies (fst (merge_ontologies (init ex_base) (map Some ex_sources))) []))
      = [(ex_stub, ex_rich)]
   \<and> snd (merge_ontologies (init ex_base) [])
      = Some [(URIRef ''http://www.example.org/test'', RDF_type, OWL_Ontology)]"
  by code_simp

text \<open>
  Claim C7, as the code has it. The step that declares inverse properties adds no
  statement that relates a property to itself: such a statement is in the merged graph
  after the step exactly when it was there before, so a candidate pair whose members are
  mapped to the same property adds nothing. After a merge, such a statement is in the
  merged graph exactly when it was there before the merge or is the rewritten form of a
  statement of a source.
\<close>

theorem inverse_declarations_not_reflexive:
  "((p, OWL_inverseOf, p) \<in> set (merged_graph (add_inverse_property_declarations st))
      \<longleftrightarrow> (p, OWL_inverseOf, p) \<in> set (merged_graph st))
   \<and> ((p, OWL_inverseOf, p) \<in> set (merged_graph (merge_parsed st ontologies))
      \<longleftrightarrow> (p, OWL_inverseOf, p) \<in> set (merged_graph st)
           \<or> (\<exists>g\<in>set ontologies. \<exists>t\<in>set g.
                 map_triple (merge_parsed st ontologies) t = (p, OWL_inverseOf, p)))"
proof
  show "(p, OWL_inverseOf, p) \<in> set (merged_graph (add_inverse_property_declarations st))
      \<longleftrightarrow> (p, OWL_inverseOf, p) \<in> set (merged_graph st)"
    unfolding add_inverse_property_declarations_set by blast
next
  show "(p, OWL_inverseOf, p) \<in> set (merged_graph (merge_parsed st ontologies))
      \<longleftrightarrow> (p, OWL_inverseOf, p) \<in> set (merged_graph st)
           \<or> (\<exists>g\<in>set ontologies. \<exists>t\<in>set g.
                 map_triple (merge_parsed st ontologies) t = (p, OWL_inverseOf, p))"
  proof -
    have im: "y \<in> f ` (\<Union>g\<in>G. set g) \<longleftrightarrow> (\<exists>g\<in>G. \<exists>t\<in>set g. f t = y)"
      for y :: triple and f :: "triple \<Rightarrow> triple" and G :: "graph set"
      by auto
    have ni: "(p, OWL_inverseOf, p) \<notin> {(a prop1, OWL_inverseOf, a prop2) | prop1 prop2.
            (prop1, prop2) \<in> P \<and> a prop1 \<noteq> a prop2}"
      for a :: "rdf_term \<Rightarrow> rdf_term" and P :: "(rdf_term \<times> rdf_term) set"
      by blast
    show ?thesis
      unfolding merge_parsed_set [of st ontologies] Un_iff im
      using ni by blast
  qed
qed

text \<open>The instance of C7 at a state whose one candidate pair is mapped to a single
  property.\<close>

theorem inverse_declarations_not_reflexive_witness:
  "(ex_detectedBy, OWL_inverseOf, ex_detectedBy)
      \<notin> set (merged_graph (add_inverse_property_declarations ex_self_inverse_state))
   \<and> apply_mapping ex_self_inverse_state ex_detects = ex_detectedBy
   \<and> apply_mapping ex_self_inverse_state ex_detectedBy = ex_detectedBy"
proof -
  have "(ex_detectedBy, OWL_inverseOf, ex_detectedBy)
           \<notin> set (merged_graph ex_self_inverse_state)
     \<and> apply_mapping ex_self_inverse_state ex_detects = ex_detectedBy
     \<and> apply_mapping ex_self_inverse_state ex_detectedBy = ex_detectedBy"
    by code_simp
  with inverse_declarations_not_reflexive [of ex_detectedBy ex_self_inverse_state "[]"]
  show ?thesis by blast
qed

text \<open>
  Claim C7 as stated fails: a source that declares a property as its own inverse is
  copied by the rewriter, and the merged graph relates the property to itself.
\<close>

theorem inverse_reflexive_counterexample:
  "(ex_symmetric, OWL_inverseOf, ex_symmetric)
     \<in> set (merged_graph (fst (merge_ontologies (init ex_base) [Some ex_symmetric_source])))"
  by code_simp

section \<open>The mapping tables\<close>

lemma dict_get_dict_set:
  "dict_get (dict_set k v d) k' = (if k' = k then Some v else dict_get d k')"
  by (induction d) auto


lemma fold_inv:
  assumes "P a" and "\<And>x b. x \<in> set xs \<Longrightarrow> P b \<Longrightarrow> P (f x b)"
  shows "P (fold f xs a)"
  using assms by (induction xs arbitrary: a) auto

lemma choose_canonical_member:
  assumes "choose_canonical_entity members ontologies = Some c"
  shows "c \<in> set members"
proof -
  from assms have "members \<noteq> []"
    by (auto simp: choose_canonical_entity_def entity_scores_def)
  from choose_canonical_split [OF this, of ontologies] assms show ?thesis by auto
qed

lemma map_group_entries:
  assumes "dict_get (map_group ontologies members m) k = Some v"
  shows "dict_get m k = Some v
           \<or> (1 < length members \<and> choose_canonical_entity members ontologies = Some v
                \<and> k \<in> set members \<and> k \<noteq> v)"
proof (cases "1 < length members")
  case False
  with assms show ?thesis by (simp add: map_group_def)
next
  case True
  show ?thesis
  proof (cases "choose_canonical_entity members ontologies")
    case None
    with assms True show ?thesis by (simp add: map_group_def)
  next
    case (Some c)
    let ?P = "\<lambda>m'. \<forall>k v. dict_get m' k = Some v \<longrightarrow>
                 dict_get m k = Some v \<or> (k \<in> set members \<and> k \<noteq> c \<and> v = c)"
    have "?P (fold (\<lambda>e m'. if e \<noteq> c then dict_set e c m' else m') members m)"
      by (rule fold_inv) (auto simp: dict_get_dict_set split: if_splits)
    with assms True Some show ?thesis
      by (simp add: map_group_def) blast
  qed
qed

lemma groups_entries:
  assumes "dict_get (fold (\<lambda>(name, members). map_group ontologies members) groups m) k = Some v"
  shows "dict_get m k = Some v
           \<or> (\<exists>members\<in>snd ` set groups.
                 1 < length members \<and> choose_canonical_entity members ontologies = Some v
                   \<and> k \<in> set members \<and> k \<noteq> v)"
proof -
  let ?P = "\<lambda>m'. \<forall>k v. dict_get m' k = Some v \<longrightarrow>
               dict_get m k = Some v
                 \<or> (\<exists>members\<in>snd ` set groups.
                       1 < length members \<and> choose_canonical_entity members ontologies = Some v
                         \<and> k \<in> set members \<and> k \<noteq> v)"
  have "?P (fold (\<lambda>(name, members). map_group ontologies members) groups m)"
  proof (rule fold_inv)
    show "?P m" by simp
  next
    fix x b assume x: "x \<in> set groups" and b: "?P b"
    obtain name members where xe: "x = (name, members)" by (cases x)
    show "?P ((case x of (name, members) \<Rightarrow> map_group ontologies members) b)"
    proof (intro allI impI)
      fix k v
      assume "dict_get ((case x of (name, members) \<Rightarrow> map_group ontologies members) b) k = Some v"
      then have "dict_get (map_group ontologies members b) k = Some v" by (simp add: xe)
      from map_group_entries [OF this] x xe b
      show "dict_get m k = Some v
                 \<or> (\<exists>members\<in>snd ` set groups.
                       1 < length members \<and> choose_canonical_entity members ontologies = Some v
                         \<and> k \<in> set members \<and> k \<noteq> v)"
        by force
    qed
  qed
  with assms show ?thesis by blast
qed

lemma disjoint_groups_same:
  assumes "disjoint_groups gs" "g1 \<in> set gs" "g2 \<in> set gs" "x \<in> set g1" "x \<in> set g2"
  shows "g1 = g2"
  using assms
proof (induction gs)
  case Nil
  then show ?case by simp
next
  case (Cons g gs)
  then show ?case
    by (auto simp: list_all_iff)
qed

section \<open>The canonical mapping\<close>

lemma apply_mapping_not_mapped: "\<not> mapped st n \<Longrightarrow> apply_mapping st n = n"
  by (auto simp: mapped_def apply_mapping_def)

lemma apply_mapping_entry:
  "mapped st n \<Longrightarrow>
     dict_get (class_mappings st) n = Some (apply_mapping st n)
       \<or> dict_get (property_mappings st) n = Some (apply_mapping st n)"
  by (auto simp: mapped_def apply_mapping_def split: option.splits)

lemma created_entry_canonical:
  assumes "class_mappings st = []" and "property_mappings st = []"
    and "dict_get (class_mappings (create_entity_mappings st sc sp ontologies)) k = Some v
           \<or> dict_get (property_mappings (create_entity_mappings st sc sp ontologies)) k = Some v"
  shows "\<exists>members\<in>snd ` set (sc @ sp).
           1 < length members \<and> choose_canonical_entity members ontologies = Some v
             \<and> k \<in> set members \<and> k \<noteq> v"
proof -
  from assms(3) show ?thesis
  proof
    assume "dict_get (class_mappings (create_entity_mappings st sc sp ontologies)) k = Some v"
    then have "dict_get (fold (\<lambda>(name, members). map_group ontologies members) sc []) k = Some v"
      by (simp add: create_entity_mappings_def assms(1))
    from groups_entries [OF this] show ?thesis by auto
  next
    assume "dict_get (property_mappings (create_entity_mappings st sc sp ontologies)) k = Some v"
    then have "dict_get (fold (\<lambda>(name, members). map_group ontologies members) sp []) k = Some v"
      by (simp add: create_entity_mappings_def assms(2))
    from groups_entries [OF this] show ?thesis by auto
  qed
qed

lemma canonical_not_mapped:
  assumes "class_mappings st = []" and "property_mappings st = []"
    and "disjoint_groups (map snd sc @ map snd sp)"
    and "members \<in> snd ` set (sc @ sp)"
    and "choose_canonical_entity members ontologies = Some c"
  shows "\<not> mapped (create_entity_mappings st sc sp ontologies) c"
proof
  let ?st = "create_entity_mappings st sc sp ontologies"
  assume "mapped ?st c"
  then obtain v where "dict_get (class_mappings ?st) c = Some v
      \<or> dict_get (property_mappings ?st) c = Some v"
    by (auto simp: mapped_def)
  from created_entry_canonical [OF assms(1,2) this] obtain members' where
    m': "members' \<in> snd ` set (sc @ sp)"
    and ch: "choose_canonical_entity members' ontologies = Some v"
    and c: "c \<in> set members'" and ne: "c \<noteq> v" by blast
  have "c \<in> set members" by (rule choose_canonical_member [OF assms(5)])
  moreover have "members \<in> set (map snd sc @ map snd sp)" using assms(4) by auto
  moreover have "members' \<in> set (map snd sc @ map snd sp)" using m' by auto
  ultimately have "members = members'"
    using disjoint_groups_same [OF assms(3)] c by blast
  with assms(5) ch ne show False by simp
qed

text \<open>
  Claim C3, as the code has it. When the mapping tables are empty before
  \<open>create_entity_mappings\<close> runs and no node is a member of two duplicate groups
  (classes and properties taken together), the mapping it builds is idempotent, and no
  node chosen canonical for a group is a key of the tables.
\<close>

theorem canonical_mapping_idempotent:
  assumes "class_mappings st = []" and "property_mappings st = []"
    and "disjoint_groups (map snd similar_classes @ map snd similar_properties)"
  shows "apply_mapping (create_entity_mappings st similar_classes similar_properties ontologies)
           (apply_mapping
              (create_entity_mappings st similar_classes similar_properties ontologies) n)
         = apply_mapping (create_entity_mappings st similar_classes similar_properties ontologies) n
     \<and> (\<forall>members c. members \<in> snd ` set (similar_classes @ similar_properties)
            \<and> choose_canonical_entity members ontologies = Some c
          \<longrightarrow> \<not> mapped
                 (create_entity_mappings st similar_classes similar_properties ontologies) c)"
proof
  let ?st = "create_entity_mappings st similar_classes similar_properties ontologies"
  show "apply_mapping ?st (apply_mapping ?st n) = apply_mapping ?st n"
  proof (cases "mapped ?st n")
    case False
    then show ?thesis by (simp add: apply_mapping_not_mapped)
  next
    case True
    from created_entry_canonical [OF assms(1,2) apply_mapping_entry [OF True]]
    obtain members where "members \<in> snd ` set (similar_classes @ similar_properties)"
      and "choose_canonical_entity members ontologies = Some (apply_mapping ?st n)" by blast
    from canonical_not_mapped [OF assms this]
    show ?thesis by (rule apply_mapping_not_mapped)
  qed
next
  let ?st = "create_entity_mappings st similar_classes similar_properties ontologies"
  show "\<forall>members c. members \<in> snd ` set (similar_classes @ similar_properties)
            \<and> choose_canonical_entity members ontologies = Some c
          \<longrightarrow> \<not> mapped ?st c"
    using canonical_not_mapped [OF assms] by blast
qed

text \<open>The instance of C3 at the two example sources, whose one group maps the stub to the
  richer node.\<close>

theorem canonical_mapping_idempotent_witness:
  "class_mappings (init ex_base) = [] \<and> property_mappings (init ex_base) = []
   \<and> disjoint_groups (map snd (find_similar_classes ex_sources)
        @ map snd (snd (find_similar_properties (init ex_base) ex_sources)))
   \<and> find_similar_classes ex_sources = [(''drowsiness'', [ex_stub, ex_rich])]
   \<and> apply_mapping
        (create_entity_mappings (init ex_base) (find_similar_classes ex_sources)
           (snd (find_similar_properties (init ex_base) ex_sources)) ex_sources)
        (apply_mapping
           (create_entity_mappings (init ex_base) (find_similar_classes ex_sources)
              (snd (find_similar_properties (init ex_base) ex_sources)) ex_sources) ex_stub)
      = apply_mapping
          (create_entity_mappings (init ex_base) (find_similar_classes ex_sources)
             (snd (find_similar_properties (init ex_base) ex_sources)) ex_sources) ex_stub
   \<and> apply_mapping
          (create_entity_mappings (init ex_base) (find_similar_classes ex_sources)
             (snd (find_similar_properties (init ex_base) ex_sources)) ex_sources) ex_stub
      = ex_rich"
proof -
  have e: "class_mappings (init ex_base) = []" "property_mappings (init ex_base) = []"
    by (simp_all add: init_def)
  have g: "find_similar_classes ex_sources = [(''drowsiness'', [ex_stub, ex_rich])]"
    by code_simp
  have d: "disjoint_groups (map snd (find_similar_classes ex_sources)
        @ map snd (snd (find_similar_properties (init ex_base) ex_sources)))"
    by code_simp
  have v: "apply_mapping
          (create_entity_mappings (init ex_base) (find_similar_classes ex_sources)
             (snd (find_similar_properties (init ex_base) ex_sources)) ex_sources) ex_stub
      = ex_rich"
    by code_simp
  from canonical_mapping_idempotent [OF e d, of ex_sources ex_stub] e g d v
  show ?thesis by blast
qed

text \<open>
  Claim C3 as stated fails. In the chain example \<open>Alert\<close> is a member of two groups:
  it loses the first to \<open>AlertState\<close> (score 9 against 8) and wins the second against
  \<open>WarningType\<close> (8 against 1). The canonical node of the second group is a key of the
  table, and mapping \<open>WarningType\<close> twice gives \<open>AlertState\<close>, not \<open>Alert\<close>.
\<close>

theorem canonical_mapping_chain_counterexample:
  "find_similar_classes ex_chain_sources =
      [(''alert'', [ex_alert, ex_alert_state]), (''warning'', [ex_alert, ex_warning_type])]
   \<and> class_mappings
        (create_entity_mappings (init ex_base) (find_similar_classes ex_chain_sources)
           (snd (find_similar_properties (init ex_base) ex_chain_sources)) ex_chain_sources)
      = [(ex_alert, ex_alert_state), (ex_warning_type, ex_alert)]
   \<and> apply_mapping
        (create_entity_mappings (init ex_base) (find_similar_classes ex_chain_sources)
           (snd (find_similar_properties (init ex_base) ex_chain_sources)) ex_chain_sources)
        ex_warning_type = ex_alert
   \<and> apply_mapping
        (create_entity_mappings (init ex_base) (find_similar_classes ex_chain_sources)
           (snd (find_similar_properties (init ex_base) ex_chain_sources)) ex_chain_sources)
        (apply_mapping
           (create_entity_mappings (init ex_base) (find_similar_classes ex_chain_sources)
              (snd (find_similar_properties (init ex_base) ex_chain_sources)) ex_chain_sources)
           ex_warning_type) = ex_alert_state
   \<and> ex_alert \<noteq> ex_alert_state"
  by code_simp

section \<open>The rewriter\<close>












lemma set_fold_add_subset:
  "set m0 \<subseteq> set (fold (\<lambda>t g'. if c t then graph_add (h t) g' else g') ts m0)"
proof (induction ts arbitrary: m0)
  case Nil
  show ?case by simp
next
  case (Cons x ts)
  have "set m0 \<subseteq> set (if c x then graph_add (h x) m0 else m0)" by auto
  also have "\<dots> \<subseteq> set (fold (\<lambda>t g'. if c t then graph_add (h t) g' else g') ts
                       (if c x then graph_add (h x) m0 else m0))"
    by (rule Cons.IH)
  finally show ?case by simp
qed



lemma transfer_relationships_keeps:
  "set g \<subseteq> set (transfer_relationships g source_uri target_uri)"
proof -
  let ?g1 = "fold (\<lambda>(s, p, ob) g'. graph_add (s, p, target_uri) g') (triples_o g source_uri) g"
  have f: "(\<lambda>(s, p, ob) g'. graph_add (s, p, target_uri) g')
      = (\<lambda>t g'. if True then graph_add ((\<lambda>(s, p, ob). (s, p, target_uri)) t) g' else g')"
    by (auto simp: fun_eq_iff)
  have e: "(\<lambda>(s, p, ob) g'.
                 if p \<noteq> RDF_type \<and> p \<noteq> RDFS_label then graph_add (target_uri, p, ob) g'
                 else g')
       = (\<lambda>t g'. if (\<lambda>(s, p, ob). p \<noteq> RDF_type \<and> p \<noteq> RDFS_label) t
                  then graph_add ((\<lambda>(s, p, ob). (target_uri, p, ob)) t) g' else g')"
    by (auto simp: fun_eq_iff)
  have "set g \<subseteq> set ?g1" unfolding f by (rule set_fold_add_subset)
  moreover have "set ?g1 \<subseteq> set (transfer_relationships g source_uri target_uri)"
    unfolding transfer_relationships_def Let_def e by (rule set_fold_add_subset)
  ultimately show ?thesis by blast
qed














end
